theory Spec2Isabelle
  imports Main "HOL-Library.Word"
begin

unbundle bit_operations_syntax

section \<open>The FSR-A simulation of k2fsr\_a.c\<close>

text \<open>
  The C file works on \<open>uint32_t\<close> values and on arrays of them. A \<open>uint32_t\<close> is a
  \<open>32 word\<close>: \<open>push_bit\<close> is \<open><<\<close> (bits shifted past bit 31 are lost), \<open>drop_bit\<close> is
  \<open>>>\<close>, and \<open>AND\<close>, \<open>OR\<close>, \<open>XOR\<close> are \<open>&\<close>, \<open>|\<close>, \<open>^\<close>. A condition \<open>if (x)\<close> on a
  word is \<open>x \<noteq> 0\<close>. Loop counters declared \<open>int\<close> that count down to \<open>-1\<close> or are
  compared with a signed bound are \<open>int\<close>; the others are \<open>nat\<close>.

  An array is a list. C gives no meaning to a read or write past the end of an array,
  so each function that indexes an array checks the lengths it needs first and returns
  \<open>None\<close> when an array is too short; with arrays as long as the ones \<open>main\<close> declares
  the result is \<open>Some\<close> of the array the C function leaves behind. The arrays of one
  call are distinct objects, as they are in \<open>main\<close>. The output functions
  (\<open>printf_fsr\<close>, \<open>fprintf_s\<close>) change no array and are left out.
\<close>

type_synonym u32 = "32 word"

subsection \<open>Constants\<close>

definition PICK1 :: u32 where
  "PICK1 = 0x00000001"

definition PICK8 :: u32 where
  "PICK8 = 0x00000100"

definition BETA_GF :: u32 where
  "BETA_GF = 0x000001C3"

definition ALPHA_SIZE :: nat where
  "ALPHA_SIZE = 4"

definition TABLE_SIZE :: nat where
  "TABLE_SIZE = 256"

definition GF_INDEX :: u32 where
  "GF_INDEX = 8"

definition FSR_A_SIZE :: nat where
  "FSR_A_SIZE = 5"

definition LOOP_A :: nat where
  "LOOP_A = 64"

definition beta_index :: "u32 list" where
  "beta_index = [71, 12, 3, 24]"

subsection \<open>Parity\<close>

text \<open>
  \<open>parity8\<close> and \<open>parity32\<close>: the successive \<open>p ^= (p >> k)\<close> are the nested \<open>let\<close>s.
  The parameter of \<open>parity8\<close> has no declared type (so it is an \<open>int\<close>) and is copied
  into the \<open>uint32_t p\<close> at once; its one caller passes a \<open>uint32_t\<close>, so the model
  takes the 32-bit word.
\<close>

definition parity8 :: "u32 \<Rightarrow> u32" where
  "parity8 x =
     (let p = x;
          p = p XOR drop_bit 4 p;
          p = p XOR drop_bit 2 p;
          p = p XOR drop_bit 1 p
      in p AND PICK1)"

definition parity32 :: "u32 \<Rightarrow> u32" where
  "parity32 x =
     (let p = x;
          p = p XOR drop_bit 16 p;
          p = p XOR drop_bit 8 p;
          p = p XOR drop_bit 4 p;
          p = p XOR drop_bit 2 p;
          p = p XOR drop_bit 1 p
      in p AND PICK1)"

subsection \<open>Multiplication in the Galois field\<close>

text \<open>
  The first loop of \<open>multi_GF\<close>: \<open>pos\<close> runs from 7 down and stops at the first set bit
  of \<open>num\<close>; it leaves the loop as \<open>-1\<close> when none of the bits 7..0 is set.
\<close>

function multi_GF_pos :: "u32 \<Rightarrow> int \<Rightarrow> int" where
  "multi_GF_pos num pos =
     (if pos \<ge> 0 then
        (if num AND push_bit (nat pos) PICK1 \<noteq> 0 then pos
         else multi_GF_pos num (pos - 1))
      else pos)"
  by pat_completeness auto
termination
  by (relation "measure (\<lambda>(num, pos). nat (pos + 1))") auto

declare multi_GF_pos.simps [simp del]

text \<open>
  The second loop: \<open>i\<close> runs from \<open>pos\<close> down to 0; \<open>t\<close> is shifted, \<open>a\<close> is added when
  bit \<open>i\<close> of \<open>num\<close> is set, and \<open>gf\<close> is added when bit \<open>gf_idx\<close> of \<open>t\<close> is set.
  The program passes \<open>gf_idx = 8\<close> only; for a \<open>gf_idx\<close> of 32 or more, where C leaves
  \<open>PICK1 << gf_idx\<close> undefined, the mask of the model is 0.
\<close>

function multi_GF_loop :: "u32 \<Rightarrow> u32 \<Rightarrow> u32 \<Rightarrow> u32 \<Rightarrow> int \<Rightarrow> u32 \<Rightarrow> u32" where
  "multi_GF_loop a num gf gf_idx i t =
     (if i \<ge> 0 then
        (let t = push_bit 1 t XOR (if num AND push_bit (nat i) PICK1 \<noteq> 0 then a else 0);
             t = (if t AND push_bit (unat gf_idx) PICK1 \<noteq> 0 then t XOR gf else t)
         in multi_GF_loop a num gf gf_idx (i - 1) t)
      else t)"
  by pat_completeness auto
termination
  by (relation "measure (\<lambda>(a, num, gf, gf_idx, i, t). nat (i + 1))") auto

declare multi_GF_loop.simps [simp del]

definition multi_GF :: "u32 \<Rightarrow> u32 \<Rightarrow> u32 \<Rightarrow> u32 \<Rightarrow> u32" where
  "multi_GF a num gf gf_idx =
     (let t = 0;
          pos = multi_GF_pos num 7
      in multi_GF_loop a num gf gf_idx pos t)"

subsection \<open>Coefficients of the monic polynomial\<close>

text \<open>
  The inner loop of \<open>make_coefficients\<close>, for one \<open>i\<close>: \<open>j\<close> counts up to
  \<open>(int)index[i]\<close>, here \<open>bound\<close>. C's \<open>!x\<close> is 1 when \<open>x\<close> is 0 and 0 otherwise.
\<close>

function make_coefficients_inner :: "u32 list \<Rightarrow> nat \<Rightarrow> u32 \<Rightarrow> int \<Rightarrow> int \<Rightarrow> u32 list" where
  "make_coefficients_inner multi i gf bound j =
     (if j < bound then
        (let multi = multi[i := push_bit 1 (multi ! i)];
             multi = (if multi ! i AND PICK8 \<noteq> 0
                      then multi[i := multi ! i XOR
                             (gf OR (if parity8 (multi ! i XOR gf) = 0 then 1 else 0))]
                      else multi)
         in make_coefficients_inner multi i gf bound (j + 1))
      else multi)"
  by pat_completeness auto
termination
  by (relation "measure (\<lambda>(multi, i, gf, bound, j). nat (bound - j))") auto

declare make_coefficients_inner.simps [simp del]

function make_coefficients_outer :: "u32 list \<Rightarrow> u32 list \<Rightarrow> u32 \<Rightarrow> nat \<Rightarrow> u32 list" where
  "make_coefficients_outer multi index gf i =
     (if i < ALPHA_SIZE then
        make_coefficients_outer
          (make_coefficients_inner multi i gf (sint (index ! i)) 0) index gf (i + 1)
      else multi)"
  by pat_completeness auto
termination
  by (relation "measure (\<lambda>(multi, index, gf, i). ALPHA_SIZE - i)") auto

declare make_coefficients_outer.simps [simp del]

definition make_coefficients :: "u32 list \<Rightarrow> u32 list \<Rightarrow> u32 \<Rightarrow> u32 list option" where
  "make_coefficients multi index gf =
     (if length multi < ALPHA_SIZE \<or> length index < ALPHA_SIZE then None
      else Some (make_coefficients_outer multi index gf 0))"

subsection \<open>The alpha look-up table\<close>

function make_alpha_table_inner :: "u32 list \<Rightarrow> u32 list \<Rightarrow> u32 \<Rightarrow> nat \<Rightarrow> nat \<Rightarrow> u32 list" where
  "make_alpha_table_inner alpha multi gf i j =
     (if j < ALPHA_SIZE then
        (let temp_u32 = multi_GF (multi ! j) (of_nat i) gf GF_INDEX;
             alpha = alpha[i := alpha ! i OR push_bit (j * 8) temp_u32]
         in make_alpha_table_inner alpha multi gf i (j + 1))
      else alpha)"
  by pat_completeness auto
termination
  by (relation "measure (\<lambda>(alpha, multi, gf, i, j). ALPHA_SIZE - j)") auto

declare make_alpha_table_inner.simps [simp del]

function make_alpha_table_outer :: "u32 list \<Rightarrow> u32 list \<Rightarrow> u32 \<Rightarrow> nat \<Rightarrow> u32 list" where
  "make_alpha_table_outer alpha multi gf i =
     (if i < TABLE_SIZE then
        make_alpha_table_outer (make_alpha_table_inner alpha multi gf i 0) multi gf (i + 1)
      else alpha)"
  by pat_completeness auto
termination
  by (relation "measure (\<lambda>(alpha, multi, gf, i). TABLE_SIZE - i)") auto

declare make_alpha_table_outer.simps [simp del]

definition make_alpha_table :: "u32 list \<Rightarrow> u32 list \<Rightarrow> u32 \<Rightarrow> u32 list option" where
  "make_alpha_table alpha multi gf =
     (if length alpha < TABLE_SIZE \<or> length multi < ALPHA_SIZE then None
      else Some (make_alpha_table_outer alpha multi gf 0))"

subsection \<open>The register update\<close>

text \<open>
  \<open>update_fsr\<close> reads \<open>fsr[0..4]\<close> and \<open>alpha[fsr[0] >> 24]\<close>, then writes the five words
  one after the other.
\<close>

definition update_fsr :: "u32 list \<Rightarrow> u32 list \<Rightarrow> u32 list option" where
  "update_fsr fsr alpha =
     (if length fsr < FSR_A_SIZE \<or> length alpha \<le> unat (drop_bit 24 (fsr ! 0)) then None
      else
        (let fb = push_bit 8 (fsr ! 0) XOR alpha ! unat (drop_bit 24 (fsr ! 0)) XOR fsr ! 3;
             fsr = fsr[0 := fsr ! 1];
             fsr = fsr[1 := fsr ! 2];
             fsr = fsr[2 := fsr ! 3];
             fsr = fsr[3 := fsr ! 4];
             fsr = fsr[4 := fb]
         in Some fsr))"

subsection \<open>The arrays of main\<close>

definition beta_multi :: "u32 list" where
  "beta_multi = [1, 1, 1, 1]"

definition alpha_0 :: "u32 list" where
  "alpha_0 = replicate TABLE_SIZE 0"

definition fsr_a :: "u32 list" where
  "fsr_a = [0xBE3CA984, 0x974E6719, 0x86916EFF, 0xF52DACF9, 0x960329B5]"

subsection \<open>Definitions for stating and proving the properties\<close>

text \<open>
  One round of the second loop of \<open>multi_GF\<close>, for bit \<open>i\<close> of \<open>num\<close>, and the
  reduction it ends with.
\<close>

definition gf_reduce :: "u32 \<Rightarrow> u32 \<Rightarrow> u32 \<Rightarrow> u32" where
  "gf_reduce gf gf_idx t = (if t AND push_bit (unat gf_idx) PICK1 \<noteq> 0 then t XOR gf else t)"

definition multi_GF_body :: "u32 \<Rightarrow> u32 \<Rightarrow> u32 \<Rightarrow> u32 \<Rightarrow> nat \<Rightarrow> u32 \<Rightarrow> u32" where
  "multi_GF_body a num gf gf_idx i t =
     gf_reduce gf gf_idx (push_bit 1 t XOR (if num AND push_bit i PICK1 \<noteq> 0 then a else 0))"

text \<open>
  The variant of the multiplication that the specification compares \<open>multi_GF\<close> with:
  the same loop, started at bit 7 whatever \<open>num\<close> is.
\<close>

definition multi_GF_all_bits :: "u32 \<Rightarrow> u32 \<Rightarrow> u32 \<Rightarrow> u32 \<Rightarrow> u32" where
  "multi_GF_all_bits a num gf gf_idx = multi_GF_loop a num gf gf_idx 7 0"

text \<open>
  A modulus as the specification's data model has it: a 9-bit polynomial, bit 8 set.
\<close>

definition valid_gf :: "u32 \<Rightarrow> bool" where
  "valid_gf gf = (gf AND PICK8 \<noteq> 0 \<and> gf < 512)"

text \<open>
  Doubling in the field (a shift and one reduction at bit 8), and the XOR of the first
  \<open>n\<close> values of a sequence: the loop of \<open>multi_GF\<close> computes such a sum.
\<close>

definition xtime :: "u32 \<Rightarrow> u32 \<Rightarrow> u32" where
  "xtime gf t = gf_reduce gf GF_INDEX (push_bit 1 t)"

fun xsum :: "(nat \<Rightarrow> u32) \<Rightarrow> nat \<Rightarrow> u32" where
  "xsum f 0 = 0"
| "xsum f (Suc n) = f n XOR xsum f n"

text \<open>
  One round of the inner loop of \<open>make_coefficients\<close>, as a function of the word
  \<open>multi[i]\<close>: the shift, then the fold when bit 8 (\<open>PICK8\<close>) is set.
\<close>

definition coef_round :: "u32 \<Rightarrow> u32 \<Rightarrow> u32" where
  "coef_round gf m =
     (let m = push_bit 1 m
      in if m AND PICK8 \<noteq> 0
         then m XOR (gf OR (if parity8 (m XOR gf) = 0 then 1 else 0))
         else m)"

text \<open>
  The value that \<open>make_alpha_table\<close> ORs into \<open>alpha[i]\<close> for lane \<open>j\<close>
  (\<open>temp_u32 << (j * 8)\<close>), and entry \<open>i\<close> of the table the function returns.
\<close>

definition lane_word :: "u32 list \<Rightarrow> u32 \<Rightarrow> nat \<Rightarrow> nat \<Rightarrow> u32" where
  "lane_word multi gf i j = push_bit (8 * j) (multi_GF (multi ! j) (of_nat i) gf GF_INDEX)"

definition alpha_entry :: "u32 list \<Rightarrow> u32 list \<Rightarrow> u32 \<Rightarrow> nat \<Rightarrow> u32 option" where
  "alpha_entry alpha multi gf i = map_option (\<lambda>tbl. tbl ! i) (make_alpha_table alpha multi gf)"

subsection \<open>The specification's side\<close>

text \<open>
  The parity of the specification: the XOR-fold of all 32 bits of \<open>x\<close>, as a bit.
  \<open>xor_bits x n\<close> folds the bits \<open>0..n-1\<close>; \<open>count_set_bits\<close> counts the set bits.
\<close>

fun xor_bits :: "u32 \<Rightarrow> nat \<Rightarrow> bool" where
  "xor_bits x 0 = False"
| "xor_bits x (Suc n) = (bit x n \<noteq> xor_bits x n)"

definition xor_fold_bits :: "u32 \<Rightarrow> u32" where
  "xor_fold_bits x = (if xor_bits x 32 then 1 else 0)"

definition count_set_bits :: "u32 \<Rightarrow> nat" where
  "count_set_bits x = length (filter (bit x) [0..<32])"

text \<open>
  The coefficient of the specification: start the accumulator at 1 and repeat \<open>e\<close>
  times: shift left by one bit; if bit 8 is now set, XOR with \<open>modulus OR 1\<close> when the
  parity of \<open>accumulator XOR modulus\<close> is 0, and with \<open>modulus\<close> alone otherwise.
\<close>

definition spec_double :: "u32 \<Rightarrow> u32 \<Rightarrow> u32" where
  "spec_double modulus acc =
     (let acc = push_bit 1 acc
      in if bit acc 8
         then (if xor_fold_bits (acc XOR modulus) = 0 then acc XOR (modulus OR 1)
               else acc XOR modulus)
         else acc)"

definition spec_coefficient :: "u32 \<Rightarrow> nat \<Rightarrow> u32" where
  "spec_coefficient modulus e = (spec_double modulus ^^ e) 1"

text \<open>
  The table entry of the specification: the OR, over the lanes \<open>j = 0..3\<close>, of the
  product for lane \<open>j\<close> shifted left by \<open>8 * j\<close> bits; and byte lane \<open>j\<close> of a word.
\<close>

definition packed_lanes :: "u32 list \<Rightarrow> u32 \<Rightarrow> nat \<Rightarrow> u32" where
  "packed_lanes multi gf i = foldr (\<lambda>j w. lane_word multi gf i j OR w) [0..<ALPHA_SIZE] 0"

definition byte_lane :: "nat \<Rightarrow> u32 \<Rightarrow> u32" where
  "byte_lane j w = drop_bit (8 * j) w AND 0xFF"

section \<open>Bits of 32-bit words\<close>

lemma u32_less_iff_bits:
  fixes w :: u32
  assumes "n < 32"
  shows "w < 2 ^ n \<longleftrightarrow> (\<forall>m. bit w m \<longrightarrow> m < n)"
proof -
  have "w < 2 ^ n \<longleftrightarrow> take_bit n w = w"
    using assms mask_eq_iff_w2p [of n w] by (simp add: take_bit_eq_mask word_size)
  also have "\<dots> \<longleftrightarrow> (\<forall>m. bit w m \<longrightarrow> m < n)"
  proof
    assume "take_bit n w = w"
    then have "bit w m \<longleftrightarrow> bit (take_bit n w) m" for m
      by simp
    then have "bit w m \<longleftrightarrow> m < n \<and> bit w m" for m
      by (simp add: bit_take_bit_iff)
    then show "\<forall>m. bit w m \<longrightarrow> m < n"
      by blast
  next
    assume "\<forall>m. bit w m \<longrightarrow> m < n"
    then show "take_bit n w = w"
      by (auto simp add: bit_eq_iff bit_take_bit_iff)
  qed
  finally show ?thesis .
qed

lemma less_256_iff: "(w :: u32) < 256 \<longleftrightarrow> (\<forall>m. bit w m \<longrightarrow> m < 8)"
  using u32_less_iff_bits [of 8 w] by simp

lemma less_512_iff: "(w :: u32) < 512 \<longleftrightarrow> (\<forall>m. bit w m \<longrightarrow> m < 9)"
  using u32_less_iff_bits [of 9 w] by simp

lemma test_bit_iff: "(t :: u32) AND push_bit n PICK1 \<noteq> 0 \<longleftrightarrow> bit t n"
  by (simp add: PICK1_def bit_iff_and_push_bit_not_eq_0)

lemma test_PICK8_iff: "(t :: u32) AND PICK8 \<noteq> 0 \<longleftrightarrow> bit t 8"
  using test_bit_iff [of t 8] by (simp add: PICK8_def PICK1_def)

lemma bit_shl1: "bit ((t :: u32) * 2) m \<longleftrightarrow> m < 32 \<and> m \<noteq> 0 \<and> bit t (m - 1)"
  using bit_double_iff [of t m] by (simp add: mult.commute)

lemma top_byte_less: "unat (drop_bit 24 (A :: u32)) < 256"
proof -
  have "unat (drop_bit 24 A) = drop_bit 24 (unat A)"
    by (simp add: unat_drop_bit_eq)
  also have "\<dots> = unat A div 2 ^ 24"
    by (simp add: drop_bit_eq_div)
  also have "\<dots> < 256"
    using unsigned_less [of A, where 'a = nat] by simp
  finally show ?thesis .
qed

section \<open>The loops of multi\_GF\<close>

lemma multi_GF_loop_neg: "i < 0 \<Longrightarrow> multi_GF_loop a num gf gf_idx i t = t"
  by (simp add: multi_GF_loop.simps)

lemma multi_GF_loop_step:
  "multi_GF_loop a num gf gf_idx (int n) t =
   multi_GF_loop a num gf gf_idx (int n - 1) (multi_GF_body a num gf gf_idx n t)"
  by (subst multi_GF_loop.simps) (simp add: multi_GF_body_def gf_reduce_def Let_def)

lemma gf_reduce_0: "gf_reduce gf gf_idx 0 = 0"
  by (simp add: gf_reduce_def)

lemma multi_GF_body_skip:
  "\<not> bit num i \<Longrightarrow> multi_GF_body a num gf gf_idx i 0 = 0"
  by (simp add: multi_GF_body_def test_bit_iff gf_reduce_0)

text \<open>
  Where the first loop walks over clear bits of \<open>num\<close>, the second loop started
  there with \<open>t = 0\<close> keeps \<open>t = 0\<close>.
\<close>

lemma multi_GF_pos_skip:
  "0 \<le> pos \<Longrightarrow>
   multi_GF_loop a num gf gf_idx pos 0 = multi_GF_loop a num gf gf_idx (multi_GF_pos num pos) 0"
proof (induction num pos rule: multi_GF_pos.induct)
  case (1 num pos)
  show ?case
  proof (cases "bit num (nat pos)")
    case True
    then show ?thesis
      using "1.prems" by (subst multi_GF_pos.simps) (simp add: test_bit_iff)
  next
    case False
    have eq: "multi_GF_pos num pos = multi_GF_pos num (pos - 1)"
      using "1.prems" False by (subst multi_GF_pos.simps) (simp add: test_bit_iff)
    have "multi_GF_loop a num gf gf_idx pos 0 = multi_GF_loop a num gf gf_idx (pos - 1) 0"
      using multi_GF_loop_step [of a num gf gf_idx "nat pos" 0] "1.prems" False
      by (simp add: multi_GF_body_skip)
    also have "\<dots> = multi_GF_loop a num gf gf_idx (multi_GF_pos num (pos - 1)) 0"
    proof (cases "0 \<le> pos - 1")
      case True
      then show ?thesis
        using "1.IH" "1.prems" False by (simp add: test_bit_iff)
    next
      case False
      then have "multi_GF_pos num (pos - 1) = pos - 1"
        by (subst multi_GF_pos.simps) simp
      then show ?thesis by simp
    qed
    finally show ?thesis by (simp add: eq)
  qed
qed

lemma multi_GF_from_bit_7: "multi_GF a num gf gf_idx = multi_GF_loop a num gf gf_idx 7 0"
  using multi_GF_pos_skip [of 7 a num gf gf_idx] by (simp add: multi_GF_def)

lemma multi_GF_pos_0: "multi_GF_pos 0 7 = - 1"
  by (simp add: multi_GF_pos.simps)

lemma multi_GF_pos_1: "multi_GF_pos 1 7 = 0"
  by (simp add: multi_GF_pos.simps PICK1_def)

lemma multi_GF_zero: "multi_GF a 0 gf gf_idx = 0"
  by (simp add: multi_GF_def multi_GF_pos_0 multi_GF_loop_neg)

subsection \<open>Reduction at bit 8\<close>

lemma unat_GF_INDEX: "unat GF_INDEX = 8"
  by (simp add: GF_INDEX_def)

lemma gf_reduce_GF_INDEX: "gf_reduce gf GF_INDEX t = (if bit t 8 then t XOR gf else t)"
  unfolding gf_reduce_def unat_GF_INDEX test_bit_iff ..

lemma multi_GF_body_GF_INDEX:
  "multi_GF_body a num gf GF_INDEX i t =
     (let s = push_bit 1 t XOR (if bit num i then a else 0) in if bit s 8 then s XOR gf else s)"
  unfolding multi_GF_body_def gf_reduce_GF_INDEX test_bit_iff Let_def ..

lemma multi_GF_one: "a < 256 \<Longrightarrow> multi_GF a 1 gf GF_INDEX = a"
  using multi_GF_loop_step [of a 1 gf GF_INDEX 0 0]
  by (auto simp add: multi_GF_def multi_GF_pos_1 multi_GF_loop_neg multi_GF_body_GF_INDEX
      less_256_iff)

subsection \<open>Closure: the product of a field element stays below 256\<close>

lemma valid_gf_iff: "valid_gf gf \<longleftrightarrow> bit gf 8 \<and> (\<forall>m. bit gf m \<longrightarrow> m < 9)"
  by (simp add: valid_gf_def test_PICK8_iff less_512_iff)

lemma multi_GF_body_closed:
  assumes "valid_gf gf" "a < 256" "t < 256"
  shows "multi_GF_body a num gf GF_INDEX i t < 256"
proof -
  define s where "s = push_bit 1 t XOR (if bit num i then a else 0)"
  have s9: "bit s m \<Longrightarrow> m < 9" for m
    using assms(2,3)
    by (fastforce simp add: s_def less_256_iff bit_xor_iff bit_shl1 split: if_splits)
  have body: "multi_GF_body a num gf GF_INDEX i t = (if bit s 8 then s XOR gf else s)"
    by (simp add: multi_GF_body_GF_INDEX s_def)
  show ?thesis
  proof (cases "bit s 8")
    case True
    have "bit (s XOR gf) m \<Longrightarrow> m < 8" for m
      using s9 [of m] assms(1) True
      by (cases "m = 8") (auto simp add: valid_gf_iff bit_simps less_Suc_eq numeral_eq_Suc)
    then show ?thesis
      using True by (simp add: body less_256_iff)
  next
    case False
    have "bit s m \<Longrightarrow> m < 8" for m
      using s9 [of m] False by (cases "m = 8") auto
    then show ?thesis
      using False by (simp add: body less_256_iff)
  qed
qed

lemma multi_GF_loop_closed:
  assumes "valid_gf gf" "a < 256"
  shows "t < 256 \<Longrightarrow> multi_GF_loop a num gf GF_INDEX i t < 256"
proof (induction "nat (i + 1)" arbitrary: i t)
  case 0
  then show ?case by (simp add: multi_GF_loop_neg)
next
  case (Suc n)
  then have i: "i = int (nat i)" and n: "n = nat (i - 1 + 1)"
    by simp_all
  have "multi_GF_loop a num gf GF_INDEX i t =
        multi_GF_loop a num gf GF_INDEX (i - 1) (multi_GF_body a num gf GF_INDEX (nat i) t)"
    using multi_GF_loop_step [of a num gf GF_INDEX "nat i" t] i by simp
  moreover have "multi_GF_body a num gf GF_INDEX (nat i) t < 256"
    using assms Suc.prems by (rule multi_GF_body_closed)
  ultimately show ?case
    using Suc.hyps(1) [OF n] by simp
qed

lemma multi_GF_closed:
  "valid_gf gf \<Longrightarrow> a < 256 \<Longrightarrow> multi_GF a num gf GF_INDEX < 256"
  by (simp add: multi_GF_def multi_GF_loop_closed)

subsection \<open>The loop as a sum, and commutativity\<close>

text \<open>
  The reduction is linear for XOR, so the loop of \<open>multi_GF\<close> computes the XOR, over the
  set bits \<open>i\<close> of \<open>num\<close>, of \<open>a\<close> doubled \<open>i\<close> times; spelling \<open>a\<close> out by its bits too
  gives a double sum that is the same for \<open>(a, num)\<close> and \<open>(num, a)\<close>.
\<close>

lemma gf_reduce_xor:
  "gf_reduce gf GF_INDEX (x XOR y) = gf_reduce gf GF_INDEX x XOR gf_reduce gf GF_INDEX y"
  by (simp add: gf_reduce_GF_INDEX bit_xor_iff ac_simps)

lemma gf_reduce_small: "a < 256 \<Longrightarrow> gf_reduce gf GF_INDEX a = a"
  by (auto simp add: gf_reduce_GF_INDEX less_256_iff)

lemma xtime_xor: "xtime gf (x XOR y) = xtime gf x XOR xtime gf y"
  by (simp only: xtime_def push_bit_xor gf_reduce_xor)

lemma xtime_0: "xtime gf 0 = 0"
  by (simp add: xtime_def gf_reduce_0)

lemma xtime_pow_xor: "(xtime gf ^^ n) (x XOR y) = (xtime gf ^^ n) x XOR (xtime gf ^^ n) y"
  by (induction n) (simp_all add: xtime_xor)

lemma xtime_pow_0: "(xtime gf ^^ n) 0 = 0"
  by (induction n) (simp_all add: xtime_0)

lemma multi_GF_body_xtime:
  "a < 256 \<Longrightarrow>
   multi_GF_body a num gf GF_INDEX i t = xtime gf t XOR (if bit num i then a else 0)"
  unfolding multi_GF_body_def test_bit_iff
  by (simp only: gf_reduce_xor xtime_def) (simp add: gf_reduce_small gf_reduce_0)

lemma multi_GF_loop_horner:
  assumes "a < 256"
  shows "multi_GF_loop a num gf GF_INDEX (int n - 1) t =
         (xtime gf ^^ n) t XOR xsum (\<lambda>i. if bit num i then (xtime gf ^^ i) a else 0) n"
proof (induction n arbitrary: t)
  case 0
  then show ?case by (simp add: multi_GF_loop_neg)
next
  case (Suc n)
  have "multi_GF_loop a num gf GF_INDEX (int (Suc n) - 1) t =
        multi_GF_loop a num gf GF_INDEX (int n - 1) (multi_GF_body a num gf GF_INDEX n t)"
    using multi_GF_loop_step [of a num gf GF_INDEX n t] by simp
  also have "\<dots> = (xtime gf ^^ n) (xtime gf t XOR (if bit num n then a else 0)) XOR
      xsum (\<lambda>i. if bit num i then (xtime gf ^^ i) a else 0) n"
    by (simp only: Suc.IH multi_GF_body_xtime [OF assms])
  also have "\<dots> = (xtime gf ^^ Suc n) t XOR
      xsum (\<lambda>i. if bit num i then (xtime gf ^^ i) a else 0) (Suc n)"
    by (simp add: xtime_pow_xor xtime_pow_0 funpow_swap1 ac_simps)
  finally show ?case .
qed

lemma multi_GF_horner:
  "a < 256 \<Longrightarrow>
   multi_GF a num gf GF_INDEX = xsum (\<lambda>i. if bit num i then (xtime gf ^^ i) a else 0) 8"
  using multi_GF_loop_horner [of a num gf 8 0]
  by (simp add: multi_GF_from_bit_7 xtime_pow_0)

lemma xsum_xor: "xsum (\<lambda>i. f i XOR g i) n = xsum f n XOR xsum g n"
  by (induction n) (simp_all add: ac_simps)

lemma xsum_zero: "xsum (\<lambda>i. 0) n = 0"
  by (induction n) simp_all

lemma xsum_cong: "(\<And>i. i < n \<Longrightarrow> f i = g i) \<Longrightarrow> xsum f n = xsum g n"
  by (induction n) simp_all

lemma xsum_swap: "xsum (\<lambda>i. xsum (\<lambda>j. f i j) m) n = xsum (\<lambda>j. xsum (\<lambda>i. f i j) n) m"
  by (induction n) (simp_all add: xsum_xor xsum_zero)

lemma xsum_linear:
  assumes "\<And>x y. L (x XOR y) = L x XOR L y" "L 0 = 0"
  shows "L (xsum f n) = xsum (\<lambda>i. L (f i)) n"
  by (induction n) (simp_all add: assms)

lemma bit_xsum_bits:
  "n \<le> 32 \<Longrightarrow> bit (xsum (\<lambda>j. if bit a j then 2 ^ j else 0) n) m \<longleftrightarrow> m < n \<and> bit a m"
  by (induction n) (auto simp add: bit_xor_iff bit_exp_iff less_Suc_eq)

lemma xsum_bits: "a < 256 \<Longrightarrow> xsum (\<lambda>j. if bit a j then 2 ^ j else 0) 8 = a"
  by (rule bit_eqI) (auto simp add: bit_xsum_bits less_256_iff)

lemma xtime_pow_1: "j < 8 \<Longrightarrow> (xtime gf ^^ j) 1 = 2 ^ j"
proof (induction j)
  case 0
  then show ?case by simp
next
  case (Suc j)
  then have "(xtime gf ^^ Suc j) 1 = xtime gf (2 ^ j)"
    by simp
  also have "\<dots> = gf_reduce gf GF_INDEX (2 ^ Suc j)"
    by (simp add: xtime_def mult.commute)
  also have "\<dots> = 2 ^ Suc j"
    using Suc.prems by (simp only: gf_reduce_GF_INDEX bit_exp_iff) simp
  finally show ?case .
qed

lemma xtime_pow_expand:
  assumes "a < 256"
  shows "(xtime gf ^^ i) a = xsum (\<lambda>j. if bit a j then (xtime gf ^^ (i + j)) 1 else 0) 8"
proof -
  have "(xtime gf ^^ i) a = (xtime gf ^^ i) (xsum (\<lambda>j. if bit a j then 2 ^ j else 0) 8)"
    by (simp add: xsum_bits [OF assms])
  also have "\<dots> = xsum (\<lambda>j. (xtime gf ^^ i) (if bit a j then 2 ^ j else 0)) 8"
    by (rule xsum_linear) (simp_all add: xtime_pow_xor xtime_pow_0)
  also have "\<dots> = xsum (\<lambda>j. if bit a j then (xtime gf ^^ (i + j)) 1 else 0) 8"
    by (rule xsum_cong) (simp add: xtime_pow_0 funpow_add xtime_pow_1)
  finally show ?thesis .
qed

lemma multi_GF_double_sum:
  assumes "a < 256"
  shows "multi_GF a b gf GF_INDEX =
    xsum (\<lambda>i. xsum (\<lambda>j. if bit b i \<and> bit a j then (xtime gf ^^ (i + j)) 1 else 0) 8) 8"
proof -
  have "multi_GF a b gf GF_INDEX = xsum (\<lambda>i. if bit b i then (xtime gf ^^ i) a else 0) 8"
    by (rule multi_GF_horner [OF assms])
  also have "\<dots> = xsum (\<lambda>i. if bit b i
      then xsum (\<lambda>j. if bit a j then (xtime gf ^^ (i + j)) 1 else 0) 8 else 0) 8"
    by (rule xsum_cong) (simp only: xtime_pow_expand [OF assms, of _ gf])
  also have "\<dots> =
    xsum (\<lambda>i. xsum (\<lambda>j. if bit b i \<and> bit a j then (xtime gf ^^ (i + j)) 1 else 0) 8) 8"
    by (rule xsum_cong) (simp add: xsum_zero)
  finally show ?thesis .
qed

lemma multi_GF_commute:
  assumes "a < 256" "b < 256"
  shows "multi_GF a b gf GF_INDEX = multi_GF b a gf GF_INDEX"
proof -
  have "multi_GF a b gf GF_INDEX =
    xsum (\<lambda>i. xsum (\<lambda>j. if bit b i \<and> bit a j then (xtime gf ^^ (i + j)) 1 else 0) 8) 8"
    by (rule multi_GF_double_sum [OF assms(1)])
  also have "\<dots> =
    xsum (\<lambda>j. xsum (\<lambda>i. if bit b i \<and> bit a j then (xtime gf ^^ (i + j)) 1 else 0) 8) 8"
    by (rule xsum_swap)
  also have "\<dots> =
    xsum (\<lambda>j. xsum (\<lambda>i. if bit a j \<and> bit b i then (xtime gf ^^ (j + i)) 1 else 0) 8) 8"
    by (simp only: conj_commute [of "bit a _"] add.commute [of _ "_ :: nat"])
  also have "\<dots> = multi_GF b a gf GF_INDEX"
    by (rule multi_GF_double_sum [OF assms(2), symmetric])
  finally show ?thesis .
qed

section \<open>Parity\<close>

lemma xor_bits_odd: "xor_bits x n \<longleftrightarrow> odd (length (filter (bit x) [0..<n]))"
  by (induction n) auto

lemma xor_bits_beyond:
  assumes "\<And>m. bit x m \<Longrightarrow> m < k"
  shows "xor_bits x (k + d) = xor_bits x k"
proof (induction d)
  case 0
  then show ?case by simp
next
  case (Suc d)
  have "\<not> bit x (k + d)"
    using assms [of "k + d"] by auto
  then show ?case
    using Suc by simp
qed

lemma xor_bits_small: "x < 256 \<Longrightarrow> xor_bits x 32 = xor_bits x 8"
  using xor_bits_beyond [of x 8 24] by (simp add: less_256_iff)

lemma and_PICK1: "(p :: u32) AND PICK1 = (if bit p 0 then 1 else 0)"
  by (simp add: PICK1_def and_one_eq bit_0 mod_2_eq_odd)

lemma parity8_low_bits: "parity8 x = (if xor_bits x 8 then 1 else 0)"
proof -
  have three: "Suc (Suc (Suc 0)) = 3"
    by simp
  have "xor_bits x 8 \<longleftrightarrow>
    (bit x 7 \<noteq> (bit x 6 \<noteq> (bit x 5 \<noteq> (bit x 4 \<noteq> (bit x 3 \<noteq> (bit x 2 \<noteq> (bit x 1 \<noteq> bit x 0)))))))"
    by (simp add: numeral_eq_Suc)
  moreover have "bit (let p = x; p = p XOR drop_bit 4 p; p = p XOR drop_bit 2 p;
      p = p XOR drop_bit 1 p in p) 0 \<longleftrightarrow>
    (bit x 7 \<noteq> (bit x 6 \<noteq> (bit x 5 \<noteq> (bit x 4 \<noteq> (bit x 3 \<noteq> (bit x 2 \<noteq> (bit x 1 \<noteq> bit x 0)))))))"
    by (simp add: Let_def bit_xor_iff bit_drop_bit_eq three) blast
  ultimately show ?thesis
    by (simp add: parity8_def and_PICK1 Let_def)
qed

section \<open>The loops of make\_coefficients\<close>

lemma make_coefficients_inner_done:
  "bound \<le> j \<Longrightarrow> make_coefficients_inner multi i gf bound j = multi"
  by (subst make_coefficients_inner.simps) simp

lemma make_coefficients_inner_step:
  assumes "j < bound" "i < length multi"
  shows "make_coefficients_inner multi i gf bound j =
         make_coefficients_inner (multi[i := coef_round gf (multi ! i)]) i gf bound (j + 1)"
  using assms
  by (subst make_coefficients_inner.simps) (simp add: coef_round_def Let_def)

lemma make_coefficients_inner_eq:
  assumes "i < length multi"
  shows "make_coefficients_inner multi i gf bound j =
         multi[i := (coef_round gf ^^ nat (bound - j)) (multi ! i)]"
  using assms
proof (induction "nat (bound - j)" arbitrary: j multi)
  case 0
  then show ?case by (simp add: make_coefficients_inner_done)
next
  case (Suc n)
  then have lt: "j < bound" and n: "n = nat (bound - (j + 1))"
    by simp_all
  have len: "i < length (multi[i := coef_round gf (multi ! i)])"
    using Suc.prems by simp
  have "nat (bound - j) = Suc (nat (bound - (j + 1)))"
    using lt by simp
  then show ?case
    using Suc.hyps(1) [OF n len] Suc.prems
    by (simp add: make_coefficients_inner_step [OF lt Suc.prems] funpow_swap1)
qed

lemma make_coefficients_outer_step:
  assumes "i < ALPHA_SIZE" "i < length multi"
  shows "make_coefficients_outer multi index gf i =
         make_coefficients_outer
           (multi[i := (coef_round gf ^^ nat (sint (index ! i))) (multi ! i)]) index gf (Suc i)"
  using assms
  by (subst make_coefficients_outer.simps) (simp add: make_coefficients_inner_eq)

lemma make_coefficients_outer_done:
  "make_coefficients_outer multi index gf (Suc (Suc (Suc (Suc 0)))) = multi"
  by (subst make_coefficients_outer.simps) (simp add: ALPHA_SIZE_def)

lemma make_coefficients_outer_eq:
  assumes "length multi = 4" "length index = 4"
  shows "make_coefficients_outer multi index gf 0 =
         map2 (\<lambda>m e. (coef_round gf ^^ nat (sint e)) m) multi index"
proof -
  obtain m0 m1 m2 m3 where multi: "multi = [m0, m1, m2, m3]"
    using assms(1) by (auto simp add: length_Suc_conv numeral_eq_Suc)
  obtain e0 e1 e2 e3 where index: "index = [e0, e1, e2, e3]"
    using assms(2) by (auto simp add: length_Suc_conv numeral_eq_Suc)
  show ?thesis
    unfolding multi index
    by (simp add: make_coefficients_outer_step make_coefficients_outer_done ALPHA_SIZE_def)
qed

lemma make_coefficients_eq:
  assumes "length multi = ALPHA_SIZE" "length index = ALPHA_SIZE"
  shows "make_coefficients multi index gf =
         Some (map2 (\<lambda>m e. (coef_round gf ^^ nat (sint e)) m) multi index)"
  using assms by (simp add: make_coefficients_def make_coefficients_outer_eq ALPHA_SIZE_def)

lemma coef_round_closed:
  assumes "valid_gf gf" "m < 256"
  shows "coef_round gf m < 256"
proof -
  define s where "s = push_bit 1 m"
  define c :: u32 where "c = (if parity8 (s XOR gf) = 0 then 1 else 0)"
  have s9: "bit s k \<Longrightarrow> k < 9" for k
    using assms(2) by (fastforce simp add: s_def less_256_iff bit_shl1)
  have c: "bit c k \<Longrightarrow> k = 0" for k
    by (cases "parity8 (s XOR gf) = 0") (simp_all add: c_def bit_1_iff)
  have round: "coef_round gf m = (if bit s 8 then s XOR (gf OR c) else s)"
    by (simp add: coef_round_def s_def c_def test_PICK8_iff Let_def)
  show ?thesis
  proof (cases "bit s 8")
    case True
    have "bit (s XOR (gf OR c)) k \<Longrightarrow> k < 8" for k
      using s9 [of k] c [of k] assms(1) True
      by (cases "k = 8") (auto simp add: valid_gf_iff bit_simps less_Suc_eq numeral_eq_Suc)
    then show ?thesis
      using True by (simp add: round less_256_iff)
  next
    case False
    have "bit s k \<Longrightarrow> k < 8" for k
      using s9 [of k] False by (cases "k = 8") auto
    then show ?thesis
      using False by (simp add: round less_256_iff)
  qed
qed

lemma coef_round_parity_arg:
  assumes "valid_gf gf" "m < 256" "bit (push_bit 1 m) 8"
  shows "push_bit 1 m XOR gf < 256"
proof -
  have "bit (push_bit 1 m XOR gf) k \<Longrightarrow> k < 8" for k
    using assms
    by (cases "k = 8")
      (fastforce simp add: valid_gf_iff less_256_iff bit_xor_iff bit_shl1 less_Suc_eq numeral_eq_Suc)+
  then show ?thesis
    by (simp add: less_256_iff)
qed

lemma parity8_small: "x < 256 \<Longrightarrow> parity8 x = xor_fold_bits x"
  by (simp add: parity8_low_bits xor_fold_bits_def xor_bits_small)

lemma coef_round_spec:
  assumes "valid_gf gf" "m < 256"
  shows "coef_round gf m = spec_double gf m"
proof (cases "bit (push_bit 1 m) 8")
  case True
  have "parity8 (push_bit 1 m XOR gf) = xor_fold_bits (push_bit 1 m XOR gf)"
    using coef_round_parity_arg [OF assms True] by (rule parity8_small)
  then show ?thesis
    using True unfolding coef_round_def spec_double_def test_PICK8_iff Let_def
    by simp
next
  case False
  then show ?thesis
    unfolding coef_round_def spec_double_def test_PICK8_iff Let_def by simp
qed

lemma coef_round_pow_closed:
  "valid_gf gf \<Longrightarrow> m < 256 \<Longrightarrow> (coef_round gf ^^ n) m < 256"
  by (induction n) (simp_all add: coef_round_closed)

lemma coef_round_pow_spec:
  assumes "valid_gf gf" "m < 256"
  shows "(coef_round gf ^^ n) m = (spec_double gf ^^ n) m"
proof (induction n)
  case 0
  then show ?case by simp
next
  case (Suc n)
  have "(coef_round gf ^^ Suc n) m = spec_double gf ((coef_round gf ^^ n) m)"
    using coef_round_spec [OF assms(1) coef_round_pow_closed [OF assms, of n]] by simp
  then show ?case
    by (simp add: Suc.IH)
qed

section \<open>The loops of make\_alpha\_table\<close>

lemma packed_lanes_eq:
  "packed_lanes multi gf i =
   lane_word multi gf i 0 OR lane_word multi gf i (Suc 0) OR
   lane_word multi gf i (Suc (Suc 0)) OR lane_word multi gf i (Suc (Suc (Suc 0)))"
proof -
  have "[0..<ALPHA_SIZE] = [0, Suc 0, Suc (Suc 0), Suc (Suc (Suc 0))]"
    by (simp add: ALPHA_SIZE_def upt_rec [of _ "numeral _"] upt_rec [of _ "Suc _"])
  then show ?thesis
    by (simp add: packed_lanes_def ac_simps)
qed

lemma make_alpha_table_inner_step:
  "j < ALPHA_SIZE \<Longrightarrow>
   make_alpha_table_inner al multi gf i j =
   make_alpha_table_inner (al[i := al ! i OR lane_word multi gf i j]) multi gf i (Suc j)"
  by (subst make_alpha_table_inner.simps) (simp add: lane_word_def mult.commute)

lemma make_alpha_table_inner_done:
  "make_alpha_table_inner al multi gf i (Suc (Suc (Suc (Suc 0)))) = al"
  by (subst make_alpha_table_inner.simps) (simp add: ALPHA_SIZE_def)

lemma make_alpha_table_inner_acc:
  assumes "j < ALPHA_SIZE" "i < length al"
  shows "make_alpha_table_inner (al[i := v]) multi gf i j =
         make_alpha_table_inner (al[i := v OR lane_word multi gf i j]) multi gf i (Suc j)"
  using assms by (simp add: make_alpha_table_inner_step)

lemma make_alpha_table_inner_eq:
  "make_alpha_table_inner alpha multi gf i 0 = alpha[i := alpha ! i OR packed_lanes multi gf i]"
proof (cases "i < length alpha")
  case True
  have "make_alpha_table_inner alpha multi gf i 0 =
        make_alpha_table_inner (alpha[i := alpha ! i]) multi gf i 0"
    by simp
  also have "\<dots> = alpha[i := alpha ! i OR packed_lanes multi gf i]"
    unfolding packed_lanes_eq using True
    by (simp add: make_alpha_table_inner_acc make_alpha_table_inner_done ALPHA_SIZE_def
        ac_simps del: list_update_id)
  finally show ?thesis .
next
  case False
  then have "make_alpha_table_inner alpha multi gf i j =
      make_alpha_table_inner alpha multi gf i (Suc j)" if "j < ALPHA_SIZE" for j
    using that by (simp add: make_alpha_table_inner_step list_update_beyond not_less)
  then show ?thesis
    using False
    by (simp add: make_alpha_table_inner_done ALPHA_SIZE_def list_update_beyond not_less)
qed

lemma length_make_alpha_table_outer:
  "length (make_alpha_table_outer alpha multi gf i) = length alpha"
proof (induction alpha multi gf i rule: make_alpha_table_outer.induct)
  case (1 alpha multi gf i)
  then show ?case
    by (subst make_alpha_table_outer.simps) (simp add: make_alpha_table_inner_eq)
qed

lemma nth_make_alpha_table_outer:
  "k < length alpha \<Longrightarrow>
   make_alpha_table_outer alpha multi gf i ! k =
     (if i \<le> k \<and> k < TABLE_SIZE then alpha ! k OR packed_lanes multi gf k else alpha ! k)"
proof (induction alpha multi gf i rule: make_alpha_table_outer.induct)
  case (1 alpha multi gf i)
  show ?case
  proof (cases "i < TABLE_SIZE")
    case True
    have unfold: "make_alpha_table_outer alpha multi gf i =
        make_alpha_table_outer (alpha[i := alpha ! i OR packed_lanes multi gf i]) multi gf (i + 1)"
      using True by (subst make_alpha_table_outer.simps) (simp add: make_alpha_table_inner_eq)
    show ?thesis
    proof (cases "k = i")
      case True
      then show ?thesis
        using "1.IH" "1.prems" \<open>i < TABLE_SIZE\<close>
        by (simp add: unfold make_alpha_table_inner_eq)
    next
      case False
      then show ?thesis
        using "1.IH" "1.prems" \<open>i < TABLE_SIZE\<close>
        by (auto simp add: unfold make_alpha_table_inner_eq)
    qed
  next
    case False
    then show ?thesis
      by (subst make_alpha_table_outer.simps) auto
  qed
qed

lemma alpha_entry_eq:
  assumes "TABLE_SIZE \<le> length alpha" "ALPHA_SIZE \<le> length multi" "i < TABLE_SIZE"
  shows "alpha_entry alpha multi gf i = Some (alpha ! i OR packed_lanes multi gf i)"
  using assms by (simp add: alpha_entry_def make_alpha_table_def nth_make_alpha_table_outer)

lemma make_alpha_table_eq:
  assumes "length alpha = TABLE_SIZE" "ALPHA_SIZE \<le> length multi"
  shows "make_alpha_table alpha multi gf =
         Some (map (\<lambda>i. alpha ! i OR packed_lanes multi gf i) [0..<TABLE_SIZE])"
  using assms
  by (auto simp add: make_alpha_table_def list_eq_iff_nth_eq length_make_alpha_table_outer
      nth_make_alpha_table_outer)

lemma bit_byte_lane: "bit (byte_lane j w) n \<longleftrightarrow> n < 8 \<and> bit w (8 * j + n)"
proof -
  have "(0xFF :: u32) = mask 8"
    by (simp add: mask_eq_exp_minus_1)
  then have "byte_lane j w = drop_bit (8 * j) w AND mask 8"
    by (simp only: byte_lane_def)
  then show ?thesis
    by (auto simp add: bit_and_iff bit_drop_bit_eq bit_mask_iff dest: bit_imp_le_length)
qed

lemma bit_shifted_byte:
  assumes "(M :: u32) < 256"
  shows "bit (push_bit (8 * k) M) m \<longleftrightarrow> 8 * k \<le> m \<and> m < 8 * k + 8 \<and> m < 32 \<and> bit M (m - 8 * k)"
  using assms by (auto simp add: bit_push_bit_iff less_256_iff dest: bit_imp_le_length)

lemma lane_word_small:
  assumes "valid_gf gf" "list_all (\<lambda>m. m < 256) multi" "j < length multi"
  shows "multi_GF (multi ! j) num gf GF_INDEX < 256"
  using assms by (simp add: multi_GF_closed list_all_length)

lemma bit_lane_word:
  assumes "valid_gf gf" "list_all (\<lambda>m. m < 256) multi" "k < length multi"
  shows "bit (lane_word multi gf i k) m \<longleftrightarrow>
    8 * k \<le> m \<and> m < 8 * k + 8 \<and> m < 32 \<and> bit (multi_GF (multi ! k) (of_nat i) gf GF_INDEX) (m - 8 * k)"
  unfolding lane_word_def by (rule bit_shifted_byte) (rule lane_word_small [OF assms])

lemma lane_words_disjoint:
  assumes "valid_gf gf" "list_all (\<lambda>m. m < 256) multi" "j < length multi" "k < length multi" "j \<noteq> k"
  shows "lane_word multi gf i j AND lane_word multi gf i k = 0"
proof (rule bit_eqI)
  fix m
  have "\<not> (8 * j \<le> m \<and> m < 8 * j + 8 \<and> 8 * k \<le> m \<and> m < 8 * k + 8)"
    using assms(5) by arith
  then show "bit (lane_word multi gf i j AND lane_word multi gf i k) m \<longleftrightarrow> bit (0 :: u32) m"
    using assms by (auto simp add: bit_and_iff bit_lane_word)
qed

lemma bit_packed_lanes:
  "bit (packed_lanes multi gf i) m \<longleftrightarrow> (\<exists>k<ALPHA_SIZE. bit (lane_word multi gf i k) m)"
proof -
  have "(\<exists>k<ALPHA_SIZE. P k) \<longleftrightarrow> P 0 \<or> P (Suc 0) \<or> P (Suc (Suc 0)) \<or> P (Suc (Suc (Suc 0)))"
    for P :: "nat \<Rightarrow> bool"
    by (auto simp add: ALPHA_SIZE_def numeral_eq_Suc less_Suc_eq)
  then show ?thesis
    by (simp add: packed_lanes_eq bit_or_iff)
qed

lemma byte_lane_packed:
  assumes "valid_gf gf" "list_all (\<lambda>m. m < 256) multi" "length multi = ALPHA_SIZE" "j < ALPHA_SIZE"
  shows "byte_lane j (packed_lanes multi gf i) = multi_GF (multi ! j) (of_nat i) gf GF_INDEX"
proof (rule bit_eqI)
  fix n
  let ?M = "\<lambda>k. multi_GF (multi ! k) (of_nat i) gf GF_INDEX"
  have lane: "bit (lane_word multi gf i k) m \<longleftrightarrow>
      8 * k \<le> m \<and> m < 8 * k + 8 \<and> m < 32 \<and> bit (?M k) (m - 8 * k)" if "k < ALPHA_SIZE" for k m
    using that assms(3) by (intro bit_lane_word [OF assms(1,2)]) simp
  have small: "bit (?M j) n \<Longrightarrow> n < 8"
    using lane_word_small [OF assms(1,2), of j "of_nat i"] assms(3,4)
    by (simp add: less_256_iff)
  have only: "k = j" if "8 * k \<le> 8 * j + n" "8 * j + n < 8 * k + 8" "n < 8" for k
    using that by arith
  have j32: "n < 8 \<Longrightarrow> 8 * j + n < 32"
    using assms(4) by (simp add: ALPHA_SIZE_def)
  have "bit (byte_lane j (packed_lanes multi gf i)) n \<longleftrightarrow>
        n < 8 \<and> (\<exists>k<ALPHA_SIZE. bit (lane_word multi gf i k) (8 * j + n))"
    by (simp add: bit_byte_lane bit_packed_lanes)
  also have "\<dots> \<longleftrightarrow> n < 8 \<and> bit (?M j) n"
  proof (cases "n < 8")
    case True
    have "(\<exists>k<ALPHA_SIZE. bit (lane_word multi gf i k) (8 * j + n)) \<longleftrightarrow> bit (?M j) n"
    proof
      assume "\<exists>k<ALPHA_SIZE. bit (lane_word multi gf i k) (8 * j + n)"
      then obtain k where k: "k < ALPHA_SIZE" "bit (lane_word multi gf i k) (8 * j + n)"
        by blast
      then have "k = j"
        using lane [OF k(1), of "8 * j + n"] only [of k] True by blast
      then show "bit (?M j) n"
        using lane [OF k(1), of "8 * j + n"] k(2) by simp
    next
      assume "bit (?M j) n"
      then have "bit (lane_word multi gf i j) (8 * j + n)"
        using lane [OF assms(4), of "8 * j + n"] True j32 by simp
      then show "\<exists>k<ALPHA_SIZE. bit (lane_word multi gf i k) (8 * j + n)"
        using assms(4) by blast
    qed
    then show ?thesis by simp
  next
    case False
    then show ?thesis by simp
  qed
  also have "\<dots> \<longleftrightarrow> bit (?M j) n"
    using small by blast
  finally show "bit (byte_lane j (packed_lanes multi gf i)) n \<longleftrightarrow> bit (?M j) n" .
qed

section \<open>The claims\<close>

text \<open>
  C1. For every state \<open>[A, B, C, D, E]\<close> of five 32-bit words and every table of 256
  entries, one \<open>update_fsr\<close> leaves the state \<open>[B, C, D, E, F]\<close> with
  \<open>F = (A << 8) XOR table[A >> 24] XOR D\<close>, the shift dropping the bits pushed past
  bit 31. The whole new state is given, so no word has any other value.
\<close>

theorem update_fsr_step:
  "length alpha = TABLE_SIZE \<Longrightarrow>
   update_fsr [A, B, C, D, E] alpha =
     Some [B, C, D, E, push_bit 8 A XOR alpha ! unat (drop_bit 24 A) XOR D]"
  using top_byte_less [of A]
  by (simp add: update_fsr_def FSR_A_SIZE_def TABLE_SIZE_def Let_def)

theorem update_fsr_step_witness:
  "length (replicate 256 (0x01020304 :: u32)) = TABLE_SIZE \<and>
   update_fsr fsr_a (replicate 256 0x01020304) =
     Some [0x974E6719, 0x86916EFF, 0xF52DACF9, 0x960329B5, 0xC8862BFD]"
  using update_fsr_step [of "replicate 256 0x01020304"
      "0xBE3CA984" "0x974E6719" "0x86916EFF" "0xF52DACF9" "0x960329B5"]
  by (simp add: TABLE_SIZE_def fsr_a_def)

text \<open>
  C2. For a table that starts zeroed (\<open>alpha_0\<close>, as in \<open>main\<close>), four multipliers,
  every index \<open>i < 256\<close> and lane \<open>j < 4\<close>: entry \<open>i\<close> of the table that
  \<open>make_alpha_table\<close> returns is the OR over the lanes of \<open>multi_GF (multi[j]) i\<close>
  shifted left by \<open>8 * j\<close> bits, whatever the 32-bit multipliers and modulus are; and
  for multipliers that are field elements and a 9-bit modulus, as the data model of the
  specification has them, byte lane \<open>j\<close> of the entry is \<open>multi_GF (multi[j]) i\<close>.
\<close>

theorem make_alpha_table_lanes:
  assumes "length multi = ALPHA_SIZE" "i < TABLE_SIZE" "j < ALPHA_SIZE"
  shows "alpha_entry alpha_0 multi gf i = Some (packed_lanes multi gf i) \<and>
         (valid_gf gf \<and> list_all (\<lambda>m. m < 256) multi \<longrightarrow>
            map_option (byte_lane j) (alpha_entry alpha_0 multi gf i) =
              Some (multi_GF (multi ! j) (of_nat i) gf GF_INDEX))"
proof -
  have entry: "alpha_entry alpha_0 multi gf i = Some (packed_lanes multi gf i)"
    using assms(1,2) alpha_entry_eq [of alpha_0 multi i gf]
    by (simp add: alpha_0_def)
  show ?thesis
    using assms by (simp add: entry byte_lane_packed)
qed

theorem make_alpha_table_lanes_witness:
  "length [0x1A, 0x6D, 0x08, 0xB6 :: u32] = ALPHA_SIZE \<and> (190 :: nat) < TABLE_SIZE \<and>
   (2 :: nat) < ALPHA_SIZE \<and> valid_gf BETA_GF \<and>
   list_all (\<lambda>m. m < 256) [0x1A, 0x6D, 0x08, 0xB6 :: u32] \<and>
   alpha_entry alpha_0 [0x1A, 0x6D, 0x08, 0xB6] BETA_GF 190 = Some 0xD3B99AB7 \<and>
   map_option (byte_lane 2) (alpha_entry alpha_0 [0x1A, 0x6D, 0x08, 0xB6] BETA_GF 190) = Some 0xB9"
proof -
  have v: "valid_gf BETA_GF"
    by (simp add: valid_gf_def BETA_GF_def PICK8_def)
  have p: "packed_lanes [0x1A, 0x6D, 0x08, 0xB6] BETA_GF 190 = 0xD3B99AB7"
    by code_simp
  have m: "multi_GF 0x08 190 BETA_GF GF_INDEX = 0xB9"
    by code_simp
  note lanes = make_alpha_table_lanes [of "[0x1A, 0x6D, 0x08, 0xB6]" 190 2 BETA_GF]
  have entry: "alpha_entry alpha_0 [0x1A, 0x6D, 0x08, 0xB6] BETA_GF 190 = Some 0xD3B99AB7"
    using lanes p by (simp add: ALPHA_SIZE_def TABLE_SIZE_def)
  have lane: "map_option (byte_lane 2) (alpha_entry alpha_0 [0x1A, 0x6D, 0x08, 0xB6] BETA_GF 190) =
      Some 0xB9"
    using lanes v m by (auto simp add: ALPHA_SIZE_def TABLE_SIZE_def)
  show ?thesis
    using v entry lane by (simp add: ALPHA_SIZE_def TABLE_SIZE_def)
qed

text \<open>
  C3. Started on \<open>beta_multi = {1, 1, 1, 1}\<close> as in \<open>main\<close>, with a 9-bit modulus,
  \<open>make_coefficients\<close> returns, for each exponent \<open>e\<close> of the list and in the order
  of the list, the coefficient of the specification: the accumulator 1 doubled \<open>e\<close>
  times by \<open>spec_double\<close>. The loop bound is \<open>(int)index[i]\<close>, so \<open>e\<close> is read as a
  signed 32-bit integer and a negative one gives no round.
\<close>

theorem make_coefficients_spec:
  assumes "valid_gf gf" "length index = ALPHA_SIZE"
  shows "make_coefficients beta_multi index gf =
         Some (map (\<lambda>e. spec_coefficient gf (nat (sint e))) index)"
proof -
  obtain e0 e1 e2 e3 where index: "index = [e0, e1, e2, e3]"
    using assms(2) by (auto simp add: length_Suc_conv numeral_eq_Suc ALPHA_SIZE_def)
  have "make_coefficients beta_multi index gf =
        Some (map2 (\<lambda>m e. (coef_round gf ^^ nat (sint e)) m) beta_multi index)"
    using assms(2) by (intro make_coefficients_eq) (simp_all add: beta_multi_def ALPHA_SIZE_def)
  then show ?thesis
    using assms(1)
    by (simp add: index beta_multi_def spec_coefficient_def coef_round_pow_spec)
qed

theorem make_coefficients_spec_witness:
  "valid_gf BETA_GF \<and> length beta_index = ALPHA_SIZE \<and>
   make_coefficients beta_multi beta_index BETA_GF = Some [0x1A, 0x6D, 0x08, 0xB6] \<and>
   map (\<lambda>e. spec_coefficient BETA_GF (nat (sint e))) beta_index = [0x1A, 0x6D, 0x08, 0xB6]"
proof -
  have v: "valid_gf BETA_GF"
    by (simp add: valid_gf_def BETA_GF_def PICK8_def)
  have l: "length beta_index = ALPHA_SIZE"
    by (simp add: beta_index_def ALPHA_SIZE_def)
  have "make_coefficients beta_multi beta_index BETA_GF = Some [0x1A, 0x6D, 0x08, 0xB6]"
    by code_simp
  then show ?thesis
    using make_coefficients_spec [OF v l] v l by simp
qed

text \<open>
  C4, as the specification states it, fails: \<open>make_alpha_table\<close> does not zero the
  table. It ORs the lanes into what the array holds, so a table that starts with all
  bits set comes back with all bits set, unlike the one built from \<open>alpha_0\<close>.
\<close>

theorem make_alpha_table_prior_contents_counterexample:
  "make_alpha_table (replicate TABLE_SIZE 0xFFFFFFFF) beta_multi BETA_GF \<noteq>
     make_alpha_table alpha_0 beta_multi BETA_GF \<and>
   alpha_entry (replicate TABLE_SIZE 0xFFFFFFFF) beta_multi BETA_GF 190 = Some 0xFFFFFFFF \<and>
   alpha_entry alpha_0 beta_multi BETA_GF 190 = Some 0xBEBEBEBE"
proof -
  have p: "packed_lanes [1, 1, 1, 1] BETA_GF 190 = 0xBEBEBEBE"
    by code_simp
  have a: "alpha_entry (replicate TABLE_SIZE 0xFFFFFFFF) beta_multi BETA_GF 190 = Some 0xFFFFFFFF"
    using alpha_entry_eq [of "replicate TABLE_SIZE 0xFFFFFFFF" beta_multi 190 BETA_GF]
    by (simp add: p beta_multi_def ALPHA_SIZE_def TABLE_SIZE_def)
  have b: "alpha_entry alpha_0 beta_multi BETA_GF 190 = Some 0xBEBEBEBE"
    using alpha_entry_eq [of alpha_0 beta_multi 190 BETA_GF]
    by (simp add: p alpha_0_def beta_multi_def ALPHA_SIZE_def TABLE_SIZE_def)
  have "make_alpha_table (replicate TABLE_SIZE 0xFFFFFFFF) beta_multi BETA_GF \<noteq>
        make_alpha_table alpha_0 beta_multi BETA_GF"
  proof
    assume "make_alpha_table (replicate TABLE_SIZE 0xFFFFFFFF) beta_multi BETA_GF =
            make_alpha_table alpha_0 beta_multi BETA_GF"
    then have "alpha_entry (replicate TABLE_SIZE 0xFFFFFFFF) beta_multi BETA_GF 190 =
               alpha_entry alpha_0 beta_multi BETA_GF 190"
      by (simp add: alpha_entry_def)
    then show False
      by (simp add: a b)
  qed
  then show ?thesis
    using a b by simp
qed

text \<open>
  C4, amended. \<open>make_alpha_table\<close> ORs the four packed lanes into the contents the
  caller's array has: entry \<open>i\<close> of the result is the prior \<open>alpha[i]\<close> OR the packed
  lanes. For the zeroed array that \<open>main\<close> passes (\<open>alpha_0\<close>), every entry is exactly
  the OR of the four packed lanes.
\<close>

theorem make_alpha_table_ors_into_prior:
  assumes "TABLE_SIZE \<le> length alpha" "length multi = ALPHA_SIZE" "i < TABLE_SIZE"
  shows "alpha_entry alpha multi gf i = Some (alpha ! i OR packed_lanes multi gf i) \<and>
         alpha_entry alpha_0 multi gf i = Some (packed_lanes multi gf i)"
  using assms alpha_entry_eq [of alpha multi i gf] alpha_entry_eq [of alpha_0 multi i gf]
  by (simp add: alpha_0_def)

theorem make_alpha_table_ors_into_prior_witness:
  "TABLE_SIZE \<le> length (replicate 256 (0xFF0000F0 :: u32)) \<and> length beta_multi = ALPHA_SIZE \<and>
   (190 :: nat) < TABLE_SIZE \<and>
   alpha_entry (replicate 256 0xFF0000F0) beta_multi BETA_GF 190 = Some 0xFFBEBEFE \<and>
   alpha_entry alpha_0 beta_multi BETA_GF 190 = Some 0xBEBEBEBE"
proof -
  have p: "packed_lanes [1, 1, 1, 1] BETA_GF 190 = 0xBEBEBEBE"
    by code_simp
  show ?thesis
    using make_alpha_table_ors_into_prior [of "replicate 256 0xFF0000F0" beta_multi 190 BETA_GF]
    by (simp add: p beta_multi_def ALPHA_SIZE_def TABLE_SIZE_def)
qed

text \<open>
  C5. With the fixed modulus \<open>BETA_GF\<close> and the reduce bit 8, for every \<open>a\<close> in
  \<open>[0, 256)\<close>: \<open>multi_GF a 0 = 0\<close> (0 annihilates) and \<open>multi_GF a 1 = a\<close> (1 is a
  right identity).
\<close>

theorem multi_GF_zero_and_one:
  "a < 256 \<Longrightarrow> multi_GF a 0 BETA_GF GF_INDEX = 0 \<and> multi_GF a 1 BETA_GF GF_INDEX = a"
  by (simp add: multi_GF_zero multi_GF_one)

theorem multi_GF_zero_and_one_witness:
  "(0x53 :: u32) < 256 \<and>
   multi_GF 0x53 0 BETA_GF GF_INDEX = 0 \<and> multi_GF 0x53 1 BETA_GF GF_INDEX = 0x53"
  using multi_GF_zero_and_one [of "0x53"] by simp

text \<open>
  C6. With the fixed modulus \<open>BETA_GF\<close> and the reduce bit 8, the multiplication is
  commutative on \<open>[0, 256)\<close>.
\<close>

theorem multi_GF_commutative:
  "a < 256 \<Longrightarrow> b < 256 \<Longrightarrow> multi_GF a b BETA_GF GF_INDEX = multi_GF b a BETA_GF GF_INDEX"
  by (rule multi_GF_commute)

theorem multi_GF_commutative_witness:
  "(0x53 :: u32) < 256 \<and> (0xCA :: u32) < 256 \<and>
   multi_GF 0x53 0xCA BETA_GF GF_INDEX = 0x12 \<and> multi_GF 0xCA 0x53 BETA_GF GF_INDEX = 0x12"
proof -
  have "multi_GF 0x53 0xCA BETA_GF GF_INDEX = 0x12"
    by code_simp
  then show ?thesis
    using multi_GF_commutative [of "0x53" "0xCA"] by simp
qed

text \<open>
  C7. The leading zero bits of the second operand are inert: \<open>multi_GF\<close>, whose loop
  starts at the highest set bit of \<open>num\<close> among the bits 7..0, returns what the loop
  returns when it is started at bit 7 and processes all 8 bits. This holds for all
  32-bit operands, so in particular for \<open>a\<close> and \<open>num\<close> below 256.
\<close>

theorem multi_GF_leading_zeros_inert:
  "multi_GF a num gf gf_idx = multi_GF_all_bits a num gf gf_idx"
  using multi_GF_pos_skip [of 7 a num gf gf_idx]
  by (simp add: multi_GF_def multi_GF_all_bits_def)

text \<open>
  C8. Field elements are closed, for every modulus with bit 8 set and no bit above it.
  First, \<open>multi_GF a b gf 8\<close> is below 256 for every \<open>a < 256\<close> and every 32-bit \<open>b\<close>.
  Second, \<open>make_coefficients\<close>, started on values below 256 (\<open>main\<close> starts it on
  ones), returns values below 256 for every list of exponents; since the array after
  any number of completed rounds is the result for smaller exponents, this bounds the
  coefficients after every round of the loop. Third, for multipliers below 256 the
  words that \<open>make_alpha_table\<close> ORs into one entry for two different lanes have no
  bit in common.
\<close>

theorem field_elements_closed:
  assumes "valid_gf gf"
  shows "(a < 256 \<longrightarrow> multi_GF a b gf GF_INDEX < 256) \<and>
         (list_all (\<lambda>m. m < 256) multi \<and> length multi = ALPHA_SIZE \<and> length index = ALPHA_SIZE \<longrightarrow>
            map_option (list_all (\<lambda>m. m < 256)) (make_coefficients multi index gf) = Some True) \<and>
         (list_all (\<lambda>m. m < 256) multi \<and> length multi = ALPHA_SIZE \<and>
          j < ALPHA_SIZE \<and> k < ALPHA_SIZE \<and> j \<noteq> k \<longrightarrow>
            lane_word multi gf i j AND lane_word multi gf i k = 0)"
proof (intro conjI impI)
  assume "a < 256"
  with assms show "multi_GF a b gf GF_INDEX < 256"
    by (rule multi_GF_closed)
next
  assume h: "list_all (\<lambda>m. m < 256) multi \<and> length multi = ALPHA_SIZE \<and> length index = ALPHA_SIZE"
  then have "make_coefficients multi index gf =
      Some (map2 (\<lambda>m e. (coef_round gf ^^ nat (sint e)) m) multi index)"
    by (simp add: make_coefficients_eq)
  moreover have "list_all (\<lambda>m. m < 256) (map2 (\<lambda>m e. (coef_round gf ^^ nat (sint e)) m) multi index)"
    using h assms
    by (auto simp add: list_all_length coef_round_pow_closed)
  ultimately show "map_option (list_all (\<lambda>m. m < 256)) (make_coefficients multi index gf) = Some True"
    by simp
next
  assume "list_all (\<lambda>m. m < 256) multi \<and> length multi = ALPHA_SIZE \<and>
          j < ALPHA_SIZE \<and> k < ALPHA_SIZE \<and> j \<noteq> k"
  with assms show "lane_word multi gf i j AND lane_word multi gf i k = 0"
    by (intro lane_words_disjoint) simp_all
qed

theorem field_elements_closed_witness:
  "valid_gf BETA_GF \<and> (0xFF :: u32) < 256 \<and> multi_GF 0xFF 0xFFFFFFFF BETA_GF GF_INDEX = 0x06 \<and>
   list_all (\<lambda>m. m < 256) beta_multi \<and> length beta_multi = ALPHA_SIZE \<and>
   length beta_index = ALPHA_SIZE \<and>
   map_option (list_all (\<lambda>m. m < 256)) (make_coefficients beta_multi beta_index BETA_GF) = Some True \<and>
   (1 :: nat) < ALPHA_SIZE \<and> (3 :: nat) < ALPHA_SIZE \<and> (1 :: nat) \<noteq> 3 \<and>
   lane_word beta_multi BETA_GF 190 1 = 0xBE00 \<and> lane_word beta_multi BETA_GF 190 3 = 0xBE000000 \<and>
   lane_word beta_multi BETA_GF 190 1 AND lane_word beta_multi BETA_GF 190 3 = 0"
proof -
  have v: "valid_gf BETA_GF"
    by (simp add: valid_gf_def BETA_GF_def PICK8_def)
  have m: "multi_GF 0xFF 0xFFFFFFFF BETA_GF GF_INDEX = 0x06"
    by code_simp
  have l1: "lane_word beta_multi BETA_GF 190 1 = 0xBE00"
    by code_simp
  have l3: "lane_word beta_multi BETA_GF 190 3 = 0xBE000000"
    by code_simp
  have s: "list_all (\<lambda>m. m < 256) beta_multi" "length beta_multi = ALPHA_SIZE"
    "length beta_index = ALPHA_SIZE"
    by (simp_all add: beta_multi_def beta_index_def ALPHA_SIZE_def)
  note closed = field_elements_closed [OF v, of "0xFF" "0xFFFFFFFF" beta_multi beta_index 1 3 190]
  have c: "map_option (list_all (\<lambda>m. m < 256)) (make_coefficients beta_multi beta_index BETA_GF) =
      Some True"
    using closed s by simp
  have d: "lane_word beta_multi BETA_GF 190 1 AND lane_word beta_multi BETA_GF 190 3 = 0"
    using closed s by (simp add: ALPHA_SIZE_def)
  show ?thesis
    using v m l1 l3 s c d by (simp add: ALPHA_SIZE_def)
qed

text \<open>
  C9, as the specification states it, fails: \<open>make_coefficients\<close> has no bound on the
  exponents and no failure path. The exponents 1025 and \<open>0xFFFFFFFF\<close> (-1 as the
  \<open>int\<close> the loop compares with) are outside \<open>[0, 1024]\<close>, and the call returns its
  coefficients as for any other exponent: 1025 rounds for the first, none for the
  second.
\<close>

theorem make_coefficients_unbounded_counterexample:
  "make_coefficients beta_multi [1025, 0xFFFFFFFF, 3, 24] BETA_GF = Some [0x20, 0x01, 0x08, 0xB6]"
  by code_simp

text \<open>
  C9, amended. \<open>make_coefficients\<close> processes every exponent: for four multipliers and
  four exponents of any value it returns normally, each multiplier taken through as
  many rounds as its exponent, read as a signed 32-bit integer, says (none when that
  is negative).
\<close>

theorem make_coefficients_every_exponent:
  assumes "length multi = ALPHA_SIZE" "length index = ALPHA_SIZE"
  shows "make_coefficients multi index gf =
         Some (map2 (\<lambda>m e. (coef_round gf ^^ nat (sint e)) m) multi index)"
  using assms by (rule make_coefficients_eq)

theorem make_coefficients_every_exponent_witness:
  "length beta_multi = ALPHA_SIZE \<and> length [300, 0x80000000, 0, 7 :: u32] = ALPHA_SIZE \<and>
   make_coefficients beta_multi [300, 0x80000000, 0, 7] BETA_GF = Some [0x94, 0x01, 0x01, 0x80] \<and>
   map2 (\<lambda>m e. (coef_round BETA_GF ^^ nat (sint e)) m) beta_multi [300, 0x80000000, 0, 7 :: u32] =
     [0x94, 0x01, 0x01, 0x80]"
proof -
  have l: "length beta_multi = ALPHA_SIZE" "length [300, 0x80000000, 0, 7 :: u32] = ALPHA_SIZE"
    by (simp_all add: beta_multi_def ALPHA_SIZE_def)
  have e: "make_coefficients beta_multi [300, 0x80000000, 0, 7] BETA_GF =
      Some [0x94, 0x01, 0x01, 0x80]"
    by code_simp
  then show ?thesis
    using make_coefficients_every_exponent [OF l, of BETA_GF] l by simp
qed

text \<open>
  C10. On its domain, the 8-bit values \<open>x < 256\<close>, \<open>parity8\<close> returns the XOR-fold of
  all bits of \<open>x\<close>: 1 if \<open>x\<close> has an odd number of set bits, else 0. (Lemma
  \<open>parity8_low_bits\<close> gives the value for every 32-bit \<open>x\<close>: the fold of the bits
  7..0. Lemma \<open>coef_round_parity_arg\<close> shows that \<open>make_coefficients\<close> calls it
  inside the domain when the modulus has 9 bits.)
\<close>

theorem parity8_xor_fold:
  "x < 256 \<Longrightarrow>
   parity8 x = xor_fold_bits x \<and> parity8 x = (if odd (count_set_bits x) then 1 else 0)"
  by (simp add: parity8_low_bits xor_fold_bits_def xor_bits_small count_set_bits_def
      flip: xor_bits_odd)

theorem parity8_xor_fold_witness:
  "(0xB5 :: u32) < 256 \<and> parity8 0xB5 = 1 \<and> xor_fold_bits 0xB5 = 1 \<and> count_set_bits 0xB5 = 5"
proof -
  have "count_set_bits 0xB5 = 5"
    by code_simp
  then show ?thesis
    using parity8_xor_fold [of "0xB5"] by auto
qed

end
